theory Spec2Isabelle
  imports Main "HOL-Library.Word" "HOL-Library.Monad_Syntax"
begin

unbundle bit_operations_syntax

section \<open>Jenkins hash (jhash.c): data model\<close>

text \<open>
  The C types \<open>u8\<close> and \<open>u32\<close> are fixed-width words, so every \<open>+\<close> and \<open>-\<close>
  below wraps modulo \<open>2 ^ 8\<close> or \<open>2 ^ 32\<close>. The three locals \<open>a\<close>, \<open>b\<close>, \<open>c\<close>
  of \<open>jhash\<close> are a triple of \<open>u32\<close>.
\<close>

type_synonym u8 = "8 word"
type_synonym u32 = "32 word"
type_synonym regs = "u32 \<times> u32 \<times> u32"

text \<open>
  The pointer \<open>k\<close> is modelled by the bytes that are readable from it onwards: \<open>k[i]\<close>
  is the \<open>i\<close>-th element of the list, and \<open>k += 12\<close> drops twelve elements. A read
  past the end of the buffer has no defined result in C; here it yields \<open>None\<close>, and the
  whole computation then yields \<open>None\<close>.
\<close>

definition rd :: "u8 list \<Rightarrow> nat \<Rightarrow> u8 option" where
  "rd k i = (if i < length k then Some (k ! i) else None)"

text \<open>
  \<open>__get_unaligned_cpu32\<close> loads four consecutive bytes as one \<open>u32\<close> in the byte order
  of the CPU ("The result depends on endianness"). The byte order is a parameter of the
  model.
\<close>

datatype endianness = Little_endian | Big_endian

definition cpu32 :: "endianness \<Rightarrow> u8 \<Rightarrow> u8 \<Rightarrow> u8 \<Rightarrow> u8 \<Rightarrow> u32" where
  "cpu32 e b0 b1 b2 b3 =
     (case e of
        Little_endian \<Rightarrow>
          ucast b0 OR push_bit 8 (ucast b1) OR push_bit 16 (ucast b2) OR push_bit 24 (ucast b3)
      | Big_endian \<Rightarrow>
          ucast b3 OR push_bit 8 (ucast b2) OR push_bit 16 (ucast b1) OR push_bit 24 (ucast b0))"

definition get_unaligned_cpu32 :: "endianness \<Rightarrow> u8 list \<Rightarrow> nat \<Rightarrow> u32 option" where
  "get_unaligned_cpu32 e k off =
     do {
       b0 \<leftarrow> rd k off;
       b1 \<leftarrow> rd k (off + 1);
       b2 \<leftarrow> rd k (off + 2);
       b3 \<leftarrow> rd k (off + 3);
       Some (cpu32 e b0 b1 b2 b3)
     }"

text \<open>
  \<open>rol32(word, shift)\<close> is \<open>(word << shift) | (word >> ((-shift) & 31))\<close> with
  \<open>shift\<close> an \<open>unsigned int\<close>. Every call in the file passes a constant between 4 and 25.
\<close>

definition rol32 :: "u32 \<Rightarrow> u32 \<Rightarrow> u32" where
  "rol32 w shift = push_bit (unat shift) w OR drop_bit (unat ((- shift) AND 31)) w"

section \<open>The mixing macros\<close>

definition jhash_mix :: "regs \<Rightarrow> regs" where
  "jhash_mix = (\<lambda>(a, b, c).
     let a = a - c; a = a XOR rol32 c 4;  c = c + b;
         b = b - a; b = b XOR rol32 a 6;  a = a + c;
         c = c - b; c = c XOR rol32 b 8;  b = b + a;
         a = a - c; a = a XOR rol32 c 16; c = c + b;
         b = b - a; b = b XOR rol32 a 19; a = a + c;
         c = c - b; c = c XOR rol32 b 4;  b = b + a
     in (a, b, c))"

definition jhash_final :: "regs \<Rightarrow> regs" where
  "jhash_final = (\<lambda>(a, b, c).
     let c = c XOR b; c = c - rol32 b 14;
         a = a XOR c; a = a - rol32 c 11;
         b = b XOR a; b = b - rol32 a 25;
         c = c XOR b; c = c - rol32 b 16;
         a = a XOR c; a = a - rol32 c 4;
         b = b XOR a; b = b - rol32 a 14;
         c = c XOR b; c = c - rol32 b 24
     in (a, b, c))"

definition JHASH_INITVAL :: u32 where
  "JHASH_INITVAL = 0xdeadbeef"

section \<open>The function \<open>jhash\<close>\<close>

text \<open>Line 97: \<open>a = b = c = JHASH_INITVAL + length + initval\<close>.\<close>

definition jhash_init :: "u32 \<Rightarrow> u32 \<Rightarrow> regs" where
  "jhash_init len initval =
     (let v = JHASH_INITVAL + len + initval in (v, v, v))"

text \<open>
  Lines 100 to 107: the loop over all but the last block. It returns the pointer, the
  remaining length and the registers as they are when the loop is left.
\<close>

function jhash_loop ::
  "endianness \<Rightarrow> u8 list \<Rightarrow> u32 \<Rightarrow> regs \<Rightarrow> (u8 list \<times> u32 \<times> regs) option" where
  "jhash_loop e k len (a, b, c) =
     (if 12 < len then
        do {
          w0 \<leftarrow> get_unaligned_cpu32 e k 0;
          w1 \<leftarrow> get_unaligned_cpu32 e k 4;
          w2 \<leftarrow> get_unaligned_cpu32 e k 8;
          jhash_loop e (drop 12 k) (len - 12) (jhash_mix (a + w0, b + w1, c + w2))
        }
      else Some (k, len, (a, b, c)))"
  by pat_completeness auto
termination
proof (relation "measure (\<lambda>(e, k, len, s). unat len)")
  show "wf (measure (\<lambda>(e, k, len, s). unat len))"
    by simp
next
  fix e :: endianness and k :: "u8 list" and len :: u32 and a b c w0 w1 w2 :: u32
  assume "12 < len"
  then have "12 \<le> len"
    by simp
  then have "unat (len - 12) = unat len - 12"
    by (simp add: unat_sub)
  moreover from \<open>12 < len\<close> have "12 < unat len"
    by (simp add: word_less_nat_alt)
  ultimately show "((e, drop 12 k, len - 12, jhash_mix (a + w0, b + w1, c + w2)),
                    (e, k, len, a, b, c)) \<in> measure (\<lambda>(e, k, len, s). unat len)"
    by simp
qed

text \<open>
  Lines 110 to 126: the \<open>switch\<close> on the remaining length. \<open>case_stmt n\<close> is the
  statement that stands at the label \<open>case n\<close>, for \<open>n\<close> from 12 down to 1.
\<close>

definition case_stmt :: "nat \<Rightarrow> u8 list \<Rightarrow> regs \<Rightarrow> regs option" where
  "case_stmt n k = (\<lambda>(a, b, c).
     if n = 12 then do { x \<leftarrow> rd k 11; Some (a, b, c + push_bit 24 (ucast x)) }
     else if n = 11 then do { x \<leftarrow> rd k 10; Some (a, b, c + push_bit 16 (ucast x)) }
     else if n = 10 then do { x \<leftarrow> rd k 9; Some (a, b, c + push_bit 8 (ucast x)) }
     else if n = 9 then do { x \<leftarrow> rd k 8; Some (a, b, c + ucast x) }
     else if n = 8 then do { x \<leftarrow> rd k 7; Some (a, b + push_bit 24 (ucast x), c) }
     else if n = 7 then do { x \<leftarrow> rd k 6; Some (a, b + push_bit 16 (ucast x), c) }
     else if n = 6 then do { x \<leftarrow> rd k 5; Some (a, b + push_bit 8 (ucast x), c) }
     else if n = 5 then do { x \<leftarrow> rd k 4; Some (a, b + ucast x, c) }
     else if n = 4 then do { x \<leftarrow> rd k 3; Some (a + push_bit 24 (ucast x), b, c) }
     else if n = 3 then do { x \<leftarrow> rd k 2; Some (a + push_bit 16 (ucast x), b, c) }
     else if n = 2 then do { x \<leftarrow> rd k 1; Some (a + push_bit 8 (ucast x), b, c) }
     else do { x \<leftarrow> rd k 0; Some (a + ucast x, b, c) })"

text \<open>
  Control enters at the label \<open>case n\<close> and falls through every lower label. After the
  statement of \<open>case 1\<close> comes \<open>__jhash_final\<close>, then the \<open>break\<close> of \<open>case 0\<close>.
  Entering at \<open>case 0\<close> reaches the \<open>break\<close> alone.
\<close>

fun fall_through :: "nat \<Rightarrow> u8 list \<Rightarrow> regs \<Rightarrow> regs option" where
  "fall_through 0 k s = Some s"
| "fall_through (Suc 0) k s = do { s' \<leftarrow> case_stmt 1 k s; Some (jhash_final s') }"
| "fall_through (Suc (Suc n)) k s =
     do { s' \<leftarrow> case_stmt (Suc (Suc n)) k s; fall_through (Suc n) k s' }"

text \<open>The \<open>switch\<close> has no \<open>default\<close>: a length above 12 runs no statement.\<close>

definition jhash_switch :: "u32 \<Rightarrow> u8 list \<Rightarrow> regs \<Rightarrow> regs option" where
  "jhash_switch len k s = (if len \<le> 12 then fall_through (unat len) k s else Some s)"

definition jhash :: "endianness \<Rightarrow> u8 list \<Rightarrow> u32 \<Rightarrow> u32 \<Rightarrow> u32 option" where
  "jhash e key len initval =
     do {
       (k, len', s) \<leftarrow> jhash_loop e key len (jhash_init len initval);
       (a, b, c) \<leftarrow> jhash_switch len' k s;
       Some c
     }"

section \<open>The specification's reading of the algorithm\<close>

text \<open>
  The definitions of this section follow the words of the specification; the theorems
  below compare them with the definitions taken from the source.

  One round of the block mix is "subtract, rotate-XOR, add" on the registers in the roles
  \<open>(x, y, z)\<close>: \<open>x -= z; x ^= rol32(z, r); z += y\<close>. The roles then move on cyclically,
  so the next round works on \<open>(y, z, x)\<close>.
\<close>

definition mix_round :: "u32 \<Rightarrow> regs \<Rightarrow> regs" where
  "mix_round r = (\<lambda>(x, y, z). (y, z + y, (x - z) XOR rol32 z r))"

definition spec_mix :: "regs \<Rightarrow> regs" where
  "spec_mix s = fold mix_round [4, 6, 8, 16, 19, 4] s"

text \<open>The round that undoes \<open>mix_round r\<close>; it occurs in no source file.\<close>

definition mix_round_inv :: "u32 \<Rightarrow> regs \<Rightarrow> regs" where
  "mix_round_inv r = (\<lambda>(y, z', x'). let z = z' - y in ((x' XOR rol32 z r) + z, y, z))"

text \<open>
  One step of the final mix on a target \<open>t\<close> and a source \<open>s\<close>:
  \<open>t ^= s; t -= rol32(s, r)\<close>. The next step has the third register as its target and
  the old target as its source. The first step has target \<open>c\<close> and source \<open>b\<close>.
\<close>

definition final_step :: "u32 \<Rightarrow> regs \<Rightarrow> regs" where
  "final_step r = (\<lambda>(t, s, u). (u, (t XOR s) - rol32 s r, s))"

definition spec_final :: "regs \<Rightarrow> regs" where
  "spec_final = (\<lambda>(a, b, c).
     case fold final_step [14, 11, 25, 16, 4, 14, 24] (c, b, a) of
       (a', c', b') \<Rightarrow> (a', b', c'))"

text \<open>
  The byte-to-word mapping of the remainder: byte \<open>i\<close> goes to register number
  \<open>i div 4\<close> (\<open>a\<close>, \<open>b\<close>, \<open>c\<close>), shifted left by \<open>8 * (i mod 4)\<close> bits. Absorbing a
  remainder of length \<open>L\<close> is one loop over the byte indices \<open>0..L-1\<close>.
\<close>

definition absorb_byte :: "nat \<Rightarrow> u8 \<Rightarrow> regs \<Rightarrow> regs" where
  "absorb_byte i x = (\<lambda>(a, b, c).
     let v = push_bit (8 * (i mod 4)) (ucast x :: u32) in
     if i div 4 = 0 then (a + v, b, c)
     else if i div 4 = 1 then (a, b + v, c)
     else (a, b, c + v))"

definition spec_absorb :: "nat \<Rightarrow> u8 list \<Rightarrow> regs \<Rightarrow> regs" where
  "spec_absorb L k s = fold (\<lambda>i. absorb_byte i (k ! i)) [0..<L] s"

text \<open>A little-endian word: \<open>b0 | b1<<8 | b2<<16 | b3<<24\<close>.\<close>

definition le32 :: "u8 \<Rightarrow> u8 \<Rightarrow> u8 \<Rightarrow> u8 \<Rightarrow> u32" where
  "le32 b0 b1 b2 b3 =
     ucast b0 OR push_bit 8 (ucast b1) OR push_bit 16 (ucast b2) OR push_bit 24 (ucast b3)"

text \<open>
  The loop over all but the last block, in the specification's words: as long as more
  than 12 bytes remain, read three words from the next 12 bytes, add them to \<open>a\<close>, \<open>b\<close>,
  \<open>c\<close>, mix, and move 12 bytes on. \<open>spec_blocks w n\<close> does this \<open>n\<close> times with the word
  reader \<open>w\<close>; a key of \<open>n\<close> bytes takes \<open>spec_iterations n\<close> rounds, the number of times
  12 can be taken away while more than 12 remain.
\<close>

type_synonym word_reader = "u8 \<Rightarrow> u8 \<Rightarrow> u8 \<Rightarrow> u8 \<Rightarrow> u32"

fun spec_blocks :: "word_reader \<Rightarrow> nat \<Rightarrow> u8 list \<Rightarrow> regs \<Rightarrow> regs" where
  "spec_blocks w 0 k s = s"
| "spec_blocks w (Suc n) k (a, b, c) =
     spec_blocks w n (drop 12 k)
       (spec_mix (a + w (k ! 0) (k ! 1) (k ! 2) (k ! 3),
                  b + w (k ! 4) (k ! 5) (k ! 6) (k ! 7),
                  c + w (k ! 8) (k ! 9) (k ! 10) (k ! 11)))"

definition spec_iterations :: "nat \<Rightarrow> nat" where
  "spec_iterations n = (n - 1) div 12"

text \<open>
  The arithmetic on natural numbers below \<open>2 ^ 32\<close>, with the reduction modulo \<open>2 ^ 32\<close>
  written out after every addition and subtraction, and the two mixing functions over it.
  \<open>regs_nat\<close> reads the three registers as natural numbers.
\<close>

type_synonym regs_n = "nat \<times> nat \<times> nat"

definition add32 :: "nat \<Rightarrow> nat \<Rightarrow> nat" where
  "add32 x y = (x + y) mod 2 ^ 32"

definition sub32 :: "nat \<Rightarrow> nat \<Rightarrow> nat" where
  "sub32 x y = (x + 2 ^ 32 - y) mod 2 ^ 32"

definition rol32_nat :: "nat \<Rightarrow> nat \<Rightarrow> nat" where
  "rol32_nat w s = (w * 2 ^ s) mod 2 ^ 32 OR w div 2 ^ (32 - s)"

definition mix_round_nat :: "nat \<Rightarrow> regs_n \<Rightarrow> regs_n" where
  "mix_round_nat r = (\<lambda>(x, y, z). (y, add32 z y, sub32 x z XOR rol32_nat z r))"

definition mix_nat :: "regs_n \<Rightarrow> regs_n" where
  "mix_nat s = fold mix_round_nat [4, 6, 8, 16, 19, 4] s"

definition final_step_nat :: "nat \<Rightarrow> regs_n \<Rightarrow> regs_n" where
  "final_step_nat r = (\<lambda>(t, s, u). (u, sub32 (t XOR s) (rol32_nat s r), s))"

definition final_nat :: "regs_n \<Rightarrow> regs_n" where
  "final_nat = (\<lambda>(a, b, c).
     case fold final_step_nat [14, 11, 25, 16, 4, 14, 24] (c, b, a) of
       (a', c', b') \<Rightarrow> (a', b', c'))"

definition tail_word_nat :: "nat \<Rightarrow> nat \<Rightarrow> nat \<Rightarrow> nat \<Rightarrow> nat \<Rightarrow> nat" where
  "tail_word_nat x b0 b1 b2 b3 = (x + b0 + 2 ^ 8 * b1 + 2 ^ 16 * b2 + 2 ^ 24 * b3) mod 2 ^ 32"

definition regs_nat :: "regs \<Rightarrow> regs_n" where
  "regs_nat = (\<lambda>(a, b, c). (unat a, unat b, unat c))"

section \<open>Basic facts\<close>

lemma rd_Some: "i < length k \<Longrightarrow> rd k i = Some (k ! i)"
  by (simp add: rd_def)

lemma unat_gt_12: "(12 :: u32) < len \<longleftrightarrow> 12 < unat len"
  by (simp add: word_less_nat_alt)

lemma unat_le_12: "len \<le> (12 :: u32) \<longleftrightarrow> unat len \<le> 12"
  by (simp add: word_le_nat_alt)

lemma unat_sub_12: "(12 :: u32) < len \<Longrightarrow> unat (len - 12) = unat len - 12"
  by (simp add: unat_sub)

lemmas jhash_loop_unfold = jhash_loop.simps

declare jhash_loop.simps [simp del]

lemma jhash_loop_exit: "\<not> 12 < len \<Longrightarrow> jhash_loop e k len s = Some (k, len, s)"
  by (cases s) (simp add: jhash_loop_unfold)

lemma jhash_loop_iter:
  assumes "12 < len" and "unat len \<le> length k"
  shows "jhash_loop e k len (a, b, c) =
           jhash_loop e (drop 12 k) (len - 12)
             (jhash_mix (a + cpu32 e (k ! 0) (k ! 1) (k ! 2) (k ! 3),
                         b + cpu32 e (k ! 4) (k ! 5) (k ! 6) (k ! 7),
                         c + cpu32 e (k ! 8) (k ! 9) (k ! 10) (k ! 11)))"
proof -
  from assms have "12 < length k"
    by (simp add: unat_gt_12)
  then have "get_unaligned_cpu32 e k 0 = Some (cpu32 e (k ! 0) (k ! 1) (k ! 2) (k ! 3))"
    and "get_unaligned_cpu32 e k 4 = Some (cpu32 e (k ! 4) (k ! 5) (k ! 6) (k ! 7))"
    and "get_unaligned_cpu32 e k 8 = Some (cpu32 e (k ! 8) (k ! 9) (k ! 10) (k ! 11))"
    by (auto simp: get_unaligned_cpu32_def rd_def numeral_2_eq_2)
  with \<open>12 < len\<close> show ?thesis
    by (simp add: jhash_loop_unfold)
qed

subsection \<open>The macros as rounds\<close>

lemma jhash_mix_rounds: "jhash_mix s = spec_mix s"
  by (cases s) (simp add: jhash_mix_def spec_mix_def mix_round_def Let_def)

lemma jhash_final_steps: "jhash_final s = spec_final s"
  by (cases s) (simp add: jhash_final_def spec_final_def final_step_def Let_def)

lemma mix_round_inv_left: "mix_round_inv r (mix_round r s) = s"
  by (cases s) (simp add: mix_round_def mix_round_inv_def Let_def xor.assoc)

lemma mix_round_inv_right: "mix_round r (mix_round_inv r s) = s"
  by (cases s) (simp add: mix_round_def mix_round_inv_def Let_def xor.assoc)

lemma bij_mix_round: "bij (mix_round r)"
  by (rule bijI' [where ?f = "mix_round r"])
    (metis mix_round_inv_left, metis mix_round_inv_right)

subsection \<open>Wrap-around of the 32-bit arithmetic\<close>

lemma u32_add_wraps: "unat (x + y :: u32) = (unat x + unat y) mod 2 ^ 32"
  by (simp add: unat_word_ariths)

lemma nat_sub_mod:
  fixes x y N :: nat
  assumes "x < N" and "y < N"
  shows "(if y \<le> x then x - y else x + N - y) = (x + N - y) mod N"
proof (cases "y \<le> x")
  case True
  then have "x + N - y = (x - y) + N"
    by simp
  then have "(x + N - y) mod N = ((x - y) + N) mod N"
    by (simp only:)
  also have "\<dots> = (x - y) mod N"
    by simp
  also from assms have "\<dots> = x - y"
    by simp
  finally show ?thesis
    using True by simp
next
  case False
  with assms have "x + N - y < N"
    by simp
  with False show ?thesis
    by simp
qed

lemma u32_sub_wraps: "unat (x - y :: u32) = (unat x + 2 ^ 32 - unat y) mod 2 ^ 32"
proof -
  have "unat x < 2 ^ 32" and "unat y < 2 ^ 32"
    using unsigned_less [of x, where ?'a = nat] unsigned_less [of y, where ?'a = nat]
    by simp_all
  then have "(if unat y \<le> unat x then unat x - unat y else unat x + 2 ^ 32 - unat y)
      = (unat x + 2 ^ 32 - unat y) mod 2 ^ 32"
    by (rule nat_sub_mod)
  moreover have "unat (x - y) = (if unat y \<le> unat x then unat x - unat y else unat x + 2 ^ 32 - unat y)"
    by (simp add: unat_sub_if')
  ultimately show ?thesis
    by (simp only:)
qed

subsection \<open>The switch\<close>

lemma rd_take: "i < L \<Longrightarrow> rd (take L k) i = rd k i"
  by (simp add: rd_def)

lemma case_stmt_take: "0 < n \<Longrightarrow> n \<le> L \<Longrightarrow> case_stmt n (take L k) s = case_stmt n k s"
  by (cases s) (simp add: case_stmt_def rd_take)

lemma fall_through_take: "n \<le> L \<Longrightarrow> fall_through n (take L k) s = fall_through n k s"
  by (induction n k s rule: fall_through.induct)
    (simp_all add: case_stmt_take cong: Option.bind_cong)

lemma small_cases:
  fixes n :: nat
  assumes "0 < n" and "n \<le> 12"
  shows "n \<in> {12, 11, 10, 9} \<or> n \<in> {8, 7, 6, 5} \<or> n \<in> {4, 3, 2, 1}"
proof -
  from assms have "n \<in> set [1..<13]"
    by simp
  then show ?thesis
    by (auto simp: upt_rec)
qed

lemma case_stmt_absorb:
  assumes "0 < n" and "n \<le> 12" and "n \<le> length k"
  shows "case_stmt n k (a, b, c) = Some (absorb_byte (n - 1) (k ! (n - 1)) (a, b, c))"
  using small_cases [OF assms(1,2)] assms(3)
  by (elim disjE insertE emptyE) (auto simp: case_stmt_def rd_def absorb_byte_def)

lemma absorb_byte_commute:
  "absorb_byte i x (absorb_byte j y s) = absorb_byte j y (absorb_byte i x s)"
  by (cases s) (simp add: absorb_byte_def Let_def)

lemma fall_through_rev:
  "n \<le> 12 \<Longrightarrow> n \<le> length k \<Longrightarrow>
   fall_through n k s =
     Some ((if n = 0 then id else jhash_final) (fold (\<lambda>i. absorb_byte i (k ! i)) (rev [0..<n]) s))"
proof (induction n k s rule: fall_through.induct)
  case (1 k s)
  then show ?case by simp
next
  case (2 k s)
  then show ?case
    using case_stmt_absorb [of 1 k] by (cases s) simp
next
  case (3 n k s)
  then show ?case
    using case_stmt_absorb [of "Suc (Suc n)" k] by (cases s) simp
qed

lemma fall_through_spec:
  assumes "n \<le> 12" and "n \<le> length k"
  shows "fall_through n k s = Some ((if n = 0 then id else jhash_final) (spec_absorb n k s))"
proof -
  have "fold (\<lambda>i. absorb_byte i (k ! i)) (rev [0..<n]) = fold (\<lambda>i. absorb_byte i (k ! i)) [0..<n]"
    by (rule fold_rev) (simp add: fun_eq_iff absorb_byte_commute)
  with fall_through_rev [OF assms, of s] show ?thesis
    by (simp add: spec_absorb_def)
qed

subsection \<open>The loop\<close>

lemma jhash_loop_result:
  "unat len \<le> length k \<Longrightarrow>
   \<exists>k' L s'. jhash_loop e k len s = Some (k', L, s') \<and> L \<le> 12 \<and> unat L \<le> unat len
     \<and> (L = 0 \<longleftrightarrow> len = 0) \<and> k' = drop (unat len - unat L) k"
proof (induction e k len s rule: jhash_loop.induct)
  case (1 e k len a b c)
  show ?case
  proof (cases "12 < len")
    case False
    then have "jhash_loop e k len (a, b, c) = Some (k, len, (a, b, c))"
      by (rule jhash_loop_exit)
    moreover from False have "len \<le> 12"
      by simp
    ultimately show ?thesis
      by simp
  next
    case True
    let ?s = "jhash_mix (a + cpu32 e (k ! 0) (k ! 1) (k ! 2) (k ! 3),
                         b + cpu32 e (k ! 4) (k ! 5) (k ! 6) (k ! 7),
                         c + cpu32 e (k ! 8) (k ! 9) (k ! 10) (k ! 11))"
    from True "1.prems" have step: "jhash_loop e k len (a, b, c) = jhash_loop e (drop 12 k) (len - 12) ?s"
      by (rule jhash_loop_iter)
    from True have sub: "unat (len - 12) = unat len - 12" and big: "12 < unat len"
      by (simp_all add: unat_sub_12 unat_gt_12)
    from big "1.prems" have reads:
      "get_unaligned_cpu32 e k 0 = Some (cpu32 e (k ! 0) (k ! 1) (k ! 2) (k ! 3))"
      "get_unaligned_cpu32 e k 4 = Some (cpu32 e (k ! 4) (k ! 5) (k ! 6) (k ! 7))"
      "get_unaligned_cpu32 e k 8 = Some (cpu32 e (k ! 8) (k ! 9) (k ! 10) (k ! 11))"
      by (auto simp: get_unaligned_cpu32_def rd_def numeral_2_eq_2)
    from sub "1.prems" have "unat (len - 12) \<le> length (drop 12 k)"
      by simp
    with "1.IH" [OF True reads] obtain k' L s' where
      r: "jhash_loop e (drop 12 k) (len - 12) ?s = Some (k', L, s')"
      and L: "L \<le> 12" "unat L \<le> unat (len - 12)" "L = 0 \<longleftrightarrow> len - 12 = 0"
      and k': "k' = drop (unat (len - 12) - unat L) (drop 12 k)"
      by blast
    from sub big have "len - 12 \<noteq> 0"
      by (auto simp: unat_eq_0 [symmetric] simp del: unat_eq_0)
    moreover from big have "len \<noteq> 0"
      by auto
    ultimately have z: "L = 0 \<longleftrightarrow> len = 0"
      using L by simp
    from L sub big have u: "unat L \<le> unat len"
      by simp
    from k' L sub big have d: "k' = drop (unat len - unat L) k"
      by simp
    from step r have "jhash_loop e k len (a, b, c) = Some (k', L, s')"
      by simp
    with z u d L(1) show ?thesis
      by blast
  qed
qed

lemma jhash_switch_spec:
  assumes "len \<le> 12" and "unat len \<le> length k"
  shows "jhash_switch len k s =
           Some (if len = 0 then s else jhash_final (spec_absorb (unat len) k s))"
proof -
  from assms have "fall_through (unat len) k s =
      Some ((if unat len = 0 then id else jhash_final) (spec_absorb (unat len) k s))"
    by (intro fall_through_spec) (simp_all add: unat_le_12)
  moreover have "spec_absorb 0 k s = s"
    by (simp add: spec_absorb_def)
  ultimately show ?thesis
    using assms(1) by (simp add: jhash_switch_def unat_eq_0)
qed

lemma absorb_byte_table:
  "absorb_byte 0 x (a, b, c) = (a + ucast x, b, c)
   \<and> absorb_byte 1 x (a, b, c) = (a + push_bit 8 (ucast x), b, c)
   \<and> absorb_byte 2 x (a, b, c) = (a + push_bit 16 (ucast x), b, c)
   \<and> absorb_byte 3 x (a, b, c) = (a + push_bit 24 (ucast x), b, c)
   \<and> absorb_byte 4 x (a, b, c) = (a, b + ucast x, c)
   \<and> absorb_byte 5 x (a, b, c) = (a, b + push_bit 8 (ucast x), c)
   \<and> absorb_byte 6 x (a, b, c) = (a, b + push_bit 16 (ucast x), c)
   \<and> absorb_byte 7 x (a, b, c) = (a, b + push_bit 24 (ucast x), c)
   \<and> absorb_byte 8 x (a, b, c) = (a, b, c + ucast x)
   \<and> absorb_byte 9 x (a, b, c) = (a, b, c + push_bit 8 (ucast x))
   \<and> absorb_byte 10 x (a, b, c) = (a, b, c + push_bit 16 (ucast x))
   \<and> absorb_byte 11 x (a, b, c) = (a, b, c + push_bit 24 (ucast x))"
  by (simp add: absorb_byte_def)

lemma jhash_loop_switch:
  assumes "unat len \<le> length key"
  shows "\<exists>k' L s'. jhash_loop e key len s = Some (k', L, s')
           \<and> L \<le> 12 \<and> unat L \<le> length k' \<and> (L = 0 \<longleftrightarrow> len = 0)
           \<and> k' = drop (unat len - unat L) key
           \<and> jhash_switch L k' s' =
                 Some (if L = 0 then s' else jhash_final (spec_absorb (unat L) k' s'))"
proof -
  from jhash_loop_result [OF assms, of e s] obtain k' L s' where
    r: "jhash_loop e key len s = Some (k', L, s')" and L: "L \<le> 12" "unat L \<le> unat len"
    and z: "L = 0 \<longleftrightarrow> len = 0" and k': "k' = drop (unat len - unat L) key"
    by blast
  from k' L assms have n: "unat L \<le> length k'"
    by simp
  from L(1) n have "jhash_switch L k' s' =
      Some (if L = 0 then s' else jhash_final (spec_absorb (unat L) k' s'))"
    by (rule jhash_switch_spec)
  with r L(1) n z k' show ?thesis
    by blast
qed

lemma jhash_value:
  assumes "jhash_loop e key len (jhash_init len initval) = Some (k', L, s')"
    and "jhash_switch L k' s' = Some t"
  shows "jhash e key len initval = Some (snd (snd t))"
  using assms by (cases t) (simp add: jhash_def)

lemma rot_bits:
  fixes w :: u32
  assumes "0 < n" and "n < 32"
  shows "push_bit n w OR drop_bit (32 - n) w = word_rotl n w"
proof (rule bit_word_eqI)
  fix i
  assume "i < LENGTH(32)"
  then have i: "i < 32"
    by simp
  show "bit (push_bit n w OR drop_bit (32 - n) w) i \<longleftrightarrow> bit (word_rotl n w) i"
  proof (cases "n \<le> i")
    case True
    with i assms have "(i + (32 - n)) mod 32 = i - n"
      by (simp add: mod_if)
    with True i assms show ?thesis
      by (auto simp: bit_simps bit_word_rotl_iff dest: bit_imp_le_length)
  next
    case False
    with i assms have "(i + (32 - n)) mod 32 = i + (32 - n)"
      by simp
    moreover have "32 - n + i = i + (32 - n)"
      by simp
    ultimately show ?thesis
      using False i assms by (auto simp: bit_simps bit_word_rotl_iff)
  qed
qed

lemma rol32_rotates:
  "rol32 w 4 = word_rotl 4 w" "rol32 w 6 = word_rotl 6 w" "rol32 w 8 = word_rotl 8 w"
  "rol32 w 16 = word_rotl 16 w" "rol32 w 19 = word_rotl 19 w" "rol32 w 14 = word_rotl 14 w"
  "rol32 w 11 = word_rotl 11 w" "rol32 w 25 = word_rotl 25 w" "rol32 w 24 = word_rotl 24 w"
  using rot_bits [of 4 w] rot_bits [of 6 w] rot_bits [of 8 w] rot_bits [of 16 w]
    rot_bits [of 19 w] rot_bits [of 14 w] rot_bits [of 11 w] rot_bits [of 25 w]
    rot_bits [of 24 w]
  by (simp_all add: rol32_def)


lemma cpu32_little: "cpu32 Little_endian b0 b1 b2 b3 = le32 b0 b1 b2 b3"
  by (simp add: cpu32_def le32_def)

lemma jhash_switch_take: "jhash_switch L (take (unat L) k) s = jhash_switch L k s"
  by (simp add: jhash_switch_def fall_through_take)

lemma jhash_loop_take:
  "unat len \<le> length k \<Longrightarrow>
   \<exists>k' L s'. jhash_loop e k len s = Some (k', L, s')
     \<and> jhash_loop e (take (unat len) k) len s = Some (take (unat L) k', L, s')"
proof (induction e k len s rule: jhash_loop.induct)
  case (1 e k len a b c)
  show ?case
  proof (cases "12 < len")
    case False
    then have "jhash_loop e k len (a, b, c) = Some (k, len, (a, b, c))"
      and "jhash_loop e (take (unat len) k) len (a, b, c) = Some (take (unat len) k, len, (a, b, c))"
      by (simp_all add: jhash_loop_exit)
    then show ?thesis
      by blast
  next
    case True
    let ?n = "unat len"
    let ?s = "jhash_mix (a + cpu32 e (k ! 0) (k ! 1) (k ! 2) (k ! 3),
                         b + cpu32 e (k ! 4) (k ! 5) (k ! 6) (k ! 7),
                         c + cpu32 e (k ! 8) (k ! 9) (k ! 10) (k ! 11))"
    from True have sub: "unat (len - 12) = ?n - 12" and big: "12 < ?n"
      by (simp_all add: unat_sub_12 unat_gt_12)
    from True "1.prems" have step: "jhash_loop e k len (a, b, c) = jhash_loop e (drop 12 k) (len - 12) ?s"
      by (rule jhash_loop_iter)
    from "1.prems" have "unat len \<le> length (take ?n k)"
      by simp
    with True have "jhash_loop e (take ?n k) len (a, b, c) =
        jhash_loop e (drop 12 (take ?n k)) (len - 12)
          (jhash_mix (a + cpu32 e (take ?n k ! 0) (take ?n k ! 1) (take ?n k ! 2) (take ?n k ! 3),
                      b + cpu32 e (take ?n k ! 4) (take ?n k ! 5) (take ?n k ! 6) (take ?n k ! 7),
                      c + cpu32 e (take ?n k ! 8) (take ?n k ! 9) (take ?n k ! 10) (take ?n k ! 11)))"
      by (rule jhash_loop_iter)
    moreover from big have "take ?n k ! i = k ! i" if "i < 12" for i
      using that by simp
    moreover have "drop 12 (take ?n k) = take (unat (len - 12)) (drop 12 k)"
      by (simp add: sub drop_take)
    ultimately have step': "jhash_loop e (take ?n k) len (a, b, c) =
        jhash_loop e (take (unat (len - 12)) (drop 12 k)) (len - 12) ?s"
      by simp
    from big "1.prems" have reads:
      "get_unaligned_cpu32 e k 0 = Some (cpu32 e (k ! 0) (k ! 1) (k ! 2) (k ! 3))"
      "get_unaligned_cpu32 e k 4 = Some (cpu32 e (k ! 4) (k ! 5) (k ! 6) (k ! 7))"
      "get_unaligned_cpu32 e k 8 = Some (cpu32 e (k ! 8) (k ! 9) (k ! 10) (k ! 11))"
      by (auto simp: get_unaligned_cpu32_def rd_def numeral_2_eq_2)
    from sub "1.prems" have "unat (len - 12) \<le> length (drop 12 k)"
      by simp
    with "1.IH" [OF True reads] obtain k' L s' where
      "jhash_loop e (drop 12 k) (len - 12) ?s = Some (k', L, s')"
      "jhash_loop e (take (unat (len - 12)) (drop 12 k)) (len - 12) ?s = Some (take (unat L) k', L, s')"
      by blast
    with step step' have "jhash_loop e k len (a, b, c) = Some (k', L, s')"
      and "jhash_loop e (take ?n k) len (a, b, c) = Some (take (unat L) k', L, s')"
      by simp_all
    then show ?thesis
      by blast
  qed
qed

lemma jhash_take:
  assumes "unat len \<le> length key"
  shows "jhash e (take (unat len) key) len initval = jhash e key len initval"
proof -
  from jhash_loop_take [OF assms, of e "jhash_init len initval"] obtain k' L s' where
    "jhash_loop e key len (jhash_init len initval) = Some (k', L, s')"
    "jhash_loop e (take (unat len) key) len (jhash_init len initval) = Some (take (unat L) k', L, s')"
    by blast
  then show ?thesis
    by (simp add: jhash_def jhash_switch_take)
qed

lemma jhash_total:
  assumes "unat len \<le> length key"
  shows "\<exists>h. jhash e key len initval = Some h"
proof -
  from jhash_loop_switch [OF assms, of e "jhash_init len initval"] obtain k' L s' t where
    "jhash_loop e key len (jhash_init len initval) = Some (k', L, s')"
    and "jhash_switch L k' s' = Some t"
    by blast
  then have "jhash e key len initval = Some (snd (snd t))"
    by (rule jhash_value)
  then show ?thesis
    by blast
qed

lemma spec_absorb_12:
  "spec_absorb 12 (k0 # k1 # k2 # k3 # k4 # k5 # k6 # k7 # k8 # k9 # k10 # k11 # rest) (a, b, c) =
     (a + ucast k0 + push_bit 8 (ucast k1) + push_bit 16 (ucast k2) + push_bit 24 (ucast k3),
      b + ucast k4 + push_bit 8 (ucast k5) + push_bit 16 (ucast k6) + push_bit 24 (ucast k7),
      c + ucast k8 + push_bit 8 (ucast k9) + push_bit 16 (ucast k10) + push_bit 24 (ucast k11))"
  by (simp add: spec_absorb_def absorb_byte_def upt_rec)

lemma xor_cancel_right:
  fixes a b c :: u32
  assumes "a XOR c = b XOR c"
  shows "a = b"
proof -
  have "a = (a XOR c) XOR c"
    by (simp add: xor.assoc)
  also have "\<dots> = (b XOR c) XOR c"
    by (simp only: assms)
  also have "\<dots> = b"
    by (simp add: xor.assoc)
  finally show ?thesis .
qed

lemma inj_final_step: "inj (final_step r)"
  by (rule injI) (auto simp: final_step_def dest: xor_cancel_right)

lemma inj_fold_final_step: "inj (fold final_step rs)"
proof (induction rs)
  case Nil
  show ?case
    by simp
next
  case (Cons r rs)
  have "fold final_step (r # rs) = fold final_step rs \<circ> final_step r"
    by (simp add: fun_eq_iff)
  with Cons inj_final_step [of r] show ?case
    by (simp only: inj_compose)
qed

lemma inj_jhash_final: "inj jhash_final"
proof (rule injI)
  fix p q :: regs
  assume eq: "jhash_final p = jhash_final q"
  obtain a b c where p: "p = (a, b, c)"
    by (cases p)
  obtain a' b' c' where q: "q = (a', b', c')"
    by (cases q)
  let ?f = "fold final_step [14, 11, 25, 16, 4, 14, 24]"
  from eq p q have "?f (c, b, a) = ?f (c', b', a')"
    unfolding jhash_final_steps spec_final_def by (auto split: prod.splits)
  then have "(c, b, a) = (c', b', a')"
    by (rule injD [OF inj_fold_final_step])
  with p q show "p = q"
    by simp
qed

subsection \<open>The loop as a number of blocks\<close>

lemma spec_iterations_small: "n \<le> 12 \<Longrightarrow> spec_iterations n = 0"
  by (simp add: spec_iterations_def)

lemma spec_iterations_step: "12 < n \<Longrightarrow> spec_iterations n = Suc (spec_iterations (n - 12))"
proof -
  assume "12 < n"
  then have "n - 1 = (n - 12 - 1) + 12"
    by simp
  then have "(n - 1) div 12 = ((n - 12 - 1) + 12) div 12"
    by (simp only:)
  also have "\<dots> = Suc ((n - 12 - 1) div 12)"
    by simp
  finally show ?thesis
    by (simp only: spec_iterations_def)
qed

lemma spec_iterations_bound: "12 * spec_iterations n \<le> n - 1"
  by (simp add: spec_iterations_def)

lemma jhash_loop_blocks:
  "unat len \<le> length k \<Longrightarrow>
   jhash_loop e k len s =
     Some (drop (12 * spec_iterations (unat len)) k,
           len - of_nat (12 * spec_iterations (unat len)),
           spec_blocks (cpu32 e) (spec_iterations (unat len)) k s)"
proof (induction e k len s rule: jhash_loop.induct)
  case (1 e k len a b c)
  show ?case
  proof (cases "12 < len")
    case False
    then have "unat len \<le> 12"
      by (simp add: unat_le_12 [symmetric])
    then have "spec_iterations (unat len) = 0"
      by (rule spec_iterations_small)
    with False show ?thesis
      by (simp add: jhash_loop_exit)
  next
    case True
    let ?s = "jhash_mix (a + cpu32 e (k ! 0) (k ! 1) (k ! 2) (k ! 3),
                         b + cpu32 e (k ! 4) (k ! 5) (k ! 6) (k ! 7),
                         c + cpu32 e (k ! 8) (k ! 9) (k ! 10) (k ! 11))"
    let ?n = "spec_iterations (unat (len - 12))"
    from True have sub: "unat (len - 12) = unat len - 12" and big: "12 < unat len"
      by (simp_all add: unat_sub_12 unat_gt_12)
    from big have it: "spec_iterations (unat len) = Suc ?n"
      by (simp only: sub spec_iterations_step)
    from True "1.prems" have step: "jhash_loop e k len (a, b, c) = jhash_loop e (drop 12 k) (len - 12) ?s"
      by (rule jhash_loop_iter)
    from big "1.prems" have reads:
      "get_unaligned_cpu32 e k 0 = Some (cpu32 e (k ! 0) (k ! 1) (k ! 2) (k ! 3))"
      "get_unaligned_cpu32 e k 4 = Some (cpu32 e (k ! 4) (k ! 5) (k ! 6) (k ! 7))"
      "get_unaligned_cpu32 e k 8 = Some (cpu32 e (k ! 8) (k ! 9) (k ! 10) (k ! 11))"
      by (auto simp: get_unaligned_cpu32_def rd_def numeral_2_eq_2)
    from sub "1.prems" have "unat (len - 12) \<le> length (drop 12 k)"
      by simp
    with "1.IH" [OF True reads] have
      "jhash_loop e (drop 12 k) (len - 12) ?s =
         Some (drop (12 * ?n) (drop 12 k), len - 12 - of_nat (12 * ?n),
               spec_blocks (cpu32 e) ?n (drop 12 k) ?s)"
      by blast
    moreover have "drop (12 * ?n) (drop 12 k) = drop (12 * Suc ?n) k"
      by (simp add: add.commute)
    moreover have "len - 12 - of_nat (12 * ?n) = len - of_nat (12 * Suc ?n)"
      by simp
    moreover have "spec_blocks (cpu32 e) ?n (drop 12 k) ?s = spec_blocks (cpu32 e) (Suc ?n) k (a, b, c)"
      by (simp add: jhash_mix_rounds)
    ultimately show ?thesis
      using step by (simp only: it)
  qed
qed

lemma remainder_unat:
  "unat (len - of_nat (12 * spec_iterations (unat len)) :: u32)
     = unat len - 12 * spec_iterations (unat len)"
proof -
  let ?m = "12 * spec_iterations (unat len)"
  have le: "?m \<le> unat len"
    using spec_iterations_bound [of "unat len"] by simp
  then have "unat (of_nat ?m :: u32) = ?m"
    by (rule le_unat_uoi)
  moreover from this le have "(of_nat ?m :: u32) \<le> len"
    by (simp add: word_le_nat_alt)
  ultimately show ?thesis
    by (simp add: unat_sub)
qed

lemma remainder_cases:
  fixes n :: nat
  shows "n - 12 * spec_iterations n =
           (if n = 0 then 0 else if 12 dvd n then 12 else n mod 12)"
proof (cases "n = 0")
  case True
  then show ?thesis
    by (simp add: spec_iterations_def)
next
  case False
  then obtain m where n: "n = Suc m"
    by (cases n) simp_all
  have "12 * (m div 12) \<le> m"
    by simp
  then have "Suc m - 12 * (m div 12) = Suc (m - 12 * (m div 12))"
    by (rule Suc_diff_le)
  also have "m - 12 * (m div 12) = m mod 12"
    by (rule minus_mult_div_eq_mod)
  finally have r: "n - 12 * spec_iterations n = Suc (m mod 12)"
    by (simp add: n spec_iterations_def)
  show ?thesis
  proof (cases "12 dvd n")
    case True
    then have "Suc m mod 12 = 0"
      using n by (simp add: dvd_eq_mod_eq_0)
    then have "m mod 12 = 11"
      by (simp add: mod_Suc split: if_splits)
    with r True False show ?thesis
      by simp
  next
    case d: False
    then have "Suc m mod 12 \<noteq> 0"
      using n by (simp add: dvd_eq_mod_eq_0)
    then have "Suc m mod 12 = Suc (m mod 12)"
      by (simp add: mod_Suc split: if_splits)
    with r d False n show ?thesis
      by simp
  qed
qed

lemma cpu32_little_fun: "cpu32 Little_endian = le32"
  by (intro ext) (rule cpu32_little)

lemma spec_iterations_one: "12 < n \<Longrightarrow> spec_iterations n = 1 \<longleftrightarrow> n \<le> 24"
  unfolding spec_iterations_def by presburger


lemma jhash_loop_remainder:
  assumes "unat len \<le> length key"
  shows "\<exists>k' L s'. jhash_loop e key len s = Some (k', L, s')
           \<and> k' = drop (12 * spec_iterations (unat len)) key
           \<and> s' = spec_blocks (cpu32 e) (spec_iterations (unat len)) key s
           \<and> unat L = unat len - 12 * spec_iterations (unat len)
           \<and> L = (if len = 0 then 0 else if 12 dvd unat len then 12 else of_nat (unat len mod 12))
           \<and> L \<le> 12 \<and> (L = 0 \<longleftrightarrow> len = 0)
           \<and> jhash_switch L k' s' =
                 Some (if L = 0 then s' else jhash_final (spec_absorb (unat L) k' s'))"
proof -
  let ?n = "spec_iterations (unat len)"
  let ?L = "len - of_nat (12 * ?n) :: u32"
  let ?k = "drop (12 * ?n) key"
  let ?s = "spec_blocks (cpu32 e) ?n key s"
  have r: "jhash_loop e key len s = Some (?k, ?L, ?s)"
    using assms by (rule jhash_loop_blocks)
  have u: "unat ?L = unat len - 12 * ?n"
    by (rule remainder_unat)
  have c: "unat ?L = (if unat len = 0 then 0 else if 12 dvd unat len then 12 else unat len mod 12)"
    by (simp only: u remainder_cases)
  have "?L = of_nat (unat ?L)"
    by simp
  also have "\<dots> = (if len = 0 then 0 else if 12 dvd unat len then 12 else of_nat (unat len mod 12))"
    by (simp only: c) (simp add: unat_eq_0)
  finally have f: "?L = (if len = 0 then 0 else if 12 dvd unat len then 12 else of_nat (unat len mod 12))" .
  from c have le: "unat ?L \<le> 12"
    by (simp split: if_splits)
  then have L12: "?L \<le> 12"
    by (simp only: unat_le_12)
  from c have z: "?L = 0 \<longleftrightarrow> len = 0"
    by (simp add: unat_eq_0 [symmetric] dvd_eq_mod_eq_0 del: unat_eq_0 split: if_splits)
  from u assms have "unat ?L \<le> length ?k"
    by simp
  with L12 have w: "jhash_switch ?L ?k ?s =
      Some (if ?L = 0 then ?s else jhash_final (spec_absorb (unat ?L) ?k ?s))"
    by (rule jhash_switch_spec)
  from r u f L12 z w show ?thesis
    by blast
qed

subsection \<open>The arithmetic on natural numbers\<close>

lemma rot_unat:
  fixes z :: u32
  shows "unat (push_bit n z OR drop_bit (32 - n) z) = rol32_nat (unat z) n"
proof -
  have "unat (push_bit n z) = take_bit 32 (push_bit n (unat z))"
    by (simp add: unsigned_push_bit_eq)
  also have "\<dots> = (unat z * 2 ^ n) mod 2 ^ 32"
    by (simp only: take_bit_eq_mod push_bit_eq_mult)
  finally have p: "unat (push_bit n z) = (unat z * 2 ^ n) mod 2 ^ 32" .
  have "unat z < 2 ^ 32"
    using unsigned_less [of z, where ?'a = nat] by simp
  then have "take_bit 32 (unat z) = unat z"
    by (rule take_bit_nat_eq_self)
  then have "unat (drop_bit (32 - n) z) = drop_bit (32 - n) (unat z)"
    by (simp add: unsigned_drop_bit_eq)
  also have "\<dots> = unat z div 2 ^ (32 - n)"
    by (simp only: drop_bit_eq_div)
  finally have d: "unat (drop_bit (32 - n) z) = unat z div 2 ^ (32 - n)" .
  show ?thesis
    by (simp only: unsigned_or_eq p d rol32_nat_def)
qed

lemma rol32_unat:
  "unat (rol32 z 4) = rol32_nat (unat z) 4" "unat (rol32 z 6) = rol32_nat (unat z) 6"
  "unat (rol32 z 8) = rol32_nat (unat z) 8" "unat (rol32 z 16) = rol32_nat (unat z) 16"
  "unat (rol32 z 19) = rol32_nat (unat z) 19" "unat (rol32 z 14) = rol32_nat (unat z) 14"
  "unat (rol32 z 11) = rol32_nat (unat z) 11" "unat (rol32 z 25) = rol32_nat (unat z) 25"
  "unat (rol32 z 24) = rol32_nat (unat z) 24"
  using rot_unat [of 4 z] rot_unat [of 6 z] rot_unat [of 8 z] rot_unat [of 16 z]
    rot_unat [of 19 z] rot_unat [of 14 z] rot_unat [of 11 z] rot_unat [of 25 z]
    rot_unat [of 24 z]
  by (simp_all add: rol32_def)

lemma add32_unat: "unat (x + y :: u32) = add32 (unat x) (unat y)"
  by (simp only: add32_def u32_add_wraps)

lemma sub32_unat: "unat (x - y :: u32) = sub32 (unat x) (unat y)"
  by (simp only: sub32_def u32_sub_wraps)

lemma mix_round_unat:
  assumes "unat (rol32 z r) = rol32_nat (unat z) n"
  shows "regs_nat (mix_round r (x, y, z)) = mix_round_nat n (unat x, unat y, unat z)"
  using assms
  by (simp add: regs_nat_def mix_round_def mix_round_nat_def add32_unat sub32_unat unsigned_xor_eq)

lemma final_step_unat:
  assumes "unat (rol32 s r) = rol32_nat (unat s) n"
  shows "regs_nat (final_step r (t, s, u)) = final_step_nat n (unat t, unat s, unat u)"
  using assms
  by (simp add: regs_nat_def final_step_def final_step_nat_def sub32_unat unsigned_xor_eq)


lemma mix_round_regs_nat:
  assumes "\<And>z. unat (rol32 z r) = rol32_nat (unat z) n"
  shows "regs_nat (mix_round r s) = mix_round_nat n (regs_nat s)"
proof -
  obtain x y z where s: "s = (x, y, z)"
    by (cases s)
  have "regs_nat (mix_round r (x, y, z)) = mix_round_nat n (unat x, unat y, unat z)"
    using assms [of z] by (rule mix_round_unat)
  then show ?thesis
    by (simp add: s regs_nat_def)
qed

lemma final_step_regs_nat:
  assumes "\<And>z. unat (rol32 z r) = rol32_nat (unat z) n"
  shows "regs_nat (final_step r s) = final_step_nat n (regs_nat s)"
proof -
  obtain t v u where s: "s = (t, v, u)"
    by (cases s)
  have "regs_nat (final_step r (t, v, u)) = final_step_nat n (unat t, unat v, unat u)"
    using assms [of v] by (rule final_step_unat)
  then show ?thesis
    by (simp add: s regs_nat_def)
qed

lemma jhash_mix_nat: "regs_nat (jhash_mix s) = mix_nat (regs_nat s)"
  by (simp add: jhash_mix_rounds spec_mix_def mix_nat_def
      mix_round_regs_nat [of 4 4, OF rol32_unat(1)] mix_round_regs_nat [of 6 6, OF rol32_unat(2)]
      mix_round_regs_nat [of 8 8, OF rol32_unat(3)] mix_round_regs_nat [of 16 16, OF rol32_unat(4)]
      mix_round_regs_nat [of 19 19, OF rol32_unat(5)])

lemma swap_regs_nat: "regs_nat (c, b, a) = (unat c, unat b, unat a)"
  by (simp add: regs_nat_def)

lemma jhash_final_nat: "regs_nat (jhash_final s) = final_nat (regs_nat s)"
proof -
  obtain a b c where s: "s = (a, b, c)"
    by (cases s)
  let ?rs = "[14, 11, 25, 16, 4, 14, 24] :: u32 list"
  let ?ns = "[14, 11, 25, 16, 4, 14, 24] :: nat list"
  have f: "regs_nat (fold final_step ?rs t) = fold final_step_nat ?ns (regs_nat t)" for t
    by (simp add:
      final_step_regs_nat [of 14 14, OF rol32_unat(6)] final_step_regs_nat [of 11 11, OF rol32_unat(7)]
      final_step_regs_nat [of 25 25, OF rol32_unat(8)] final_step_regs_nat [of 16 16, OF rol32_unat(4)]
      final_step_regs_nat [of 4 4, OF rol32_unat(1)] final_step_regs_nat [of 24 24, OF rol32_unat(9)])
  obtain a' c' b' where r: "fold final_step ?rs (c, b, a) = (a', c', b')"
    by (cases "fold final_step ?rs (c, b, a)")
  from f [of "(c, b, a)"] r have "fold final_step_nat ?ns (unat c, unat b, unat a) = (unat a', unat c', unat b')"
    by (simp add: regs_nat_def)
  with r show ?thesis
    by (simp add: s jhash_final_steps spec_final_def final_nat_def regs_nat_def)
qed

lemma ucast_byte_unat: "unat (ucast (x :: u8) :: u32) = unat x"
  by (simp add: unsigned_ucast_eq take_bit_nat_eq_self unsigned_less [of x, where ?'a = nat, simplified] less_trans [OF unsigned_less [of x, where ?'a = nat, simplified]])


lemma shifted_byte_unat:
  "unat (push_bit n (ucast (x :: u8) :: u32)) = (2 ^ n * unat x) mod 2 ^ 32"
proof -
  have "unat (push_bit n (ucast x :: u32)) = take_bit 32 (push_bit n (unat (ucast x :: u32)))"
    by (simp add: unsigned_push_bit_eq)
  also have "\<dots> = (unat (ucast x :: u32) * 2 ^ n) mod 2 ^ 32"
    by (simp only: take_bit_eq_mod push_bit_eq_mult)
  finally show ?thesis
    by (simp only: ucast_byte_unat mult.commute)
qed

lemma tail_word_unat:
  "unat (a + ucast k0 + push_bit 8 (ucast k1) + push_bit 16 (ucast k2) + push_bit 24 (ucast k3) :: u32)
     = tail_word_nat (unat a) (unat (k0 :: u8)) (unat (k1 :: u8)) (unat (k2 :: u8)) (unat (k3 :: u8))"
proof -
  have "unat (a + ucast k0 + push_bit 8 (ucast k1) + push_bit 16 (ucast k2) + push_bit 24 (ucast k3) :: u32)
      = ((((unat a + unat k0) mod 2 ^ 32 + (2 ^ 8 * unat k1) mod 2 ^ 32) mod 2 ^ 32
          + (2 ^ 16 * unat k2) mod 2 ^ 32) mod 2 ^ 32 + (2 ^ 24 * unat k3) mod 2 ^ 32) mod 2 ^ 32"
    by (simp only: u32_add_wraps shifted_byte_unat ucast_byte_unat)
  also have "\<dots> = (unat a + unat k0 + 2 ^ 8 * unat k1 + 2 ^ 16 * unat k2 + 2 ^ 24 * unat k3) mod 2 ^ 32"
    by (simp only: mod_add_left_eq mod_add_right_eq)
  finally show ?thesis
    by (simp only: tail_word_nat_def)
qed


lemma regs_nat_third: "snd (snd (regs_nat t)) = unat (snd (snd t))"
  by (cases t) (simp add: regs_nat_def)

lemma jhash_unfold:
  "jhash e key len initval =
     jhash_loop e key len
       (0xdeadbeef + len + initval, 0xdeadbeef + len + initval, 0xdeadbeef + len + initval)
     \<bind> (\<lambda>(k, L, s). jhash_switch L k s \<bind> (\<lambda>(a, b, c). Some c))"
  by (simp add: jhash_def jhash_init_def JHASH_INITVAL_def Let_def)

lemma jhash_init_nat:
  "regs_nat (jhash_init len initval) =
     ((3735928559 + unat len + unat initval) mod 2 ^ 32,
      (3735928559 + unat len + unat initval) mod 2 ^ 32,
      (3735928559 + unat len + unat initval) mod 2 ^ 32)"
proof -
  have "unat (0xdeadbeef + len + initval) = (3735928559 + unat len + unat initval) mod 2 ^ 32"
    by (simp add: unat_word_ariths mod_simps)
  then show ?thesis
    by (simp add: regs_nat_def jhash_init_def JHASH_INITVAL_def Let_def)
qed

lemma jhash_loop_one_block:
  "\<exists>s'. jhash_loop e (k0 # k1 # k2 # k3 # k4 # k5 # k6 # k7 # k8 # k9 # k10 # k11 # k12 # rest)
            13 (a, b, c) = Some (k12 # rest, 1, s')
     \<and> regs_nat s' =
         mix_nat (add32 (unat a) (unat (cpu32 e k0 k1 k2 k3)),
                  add32 (unat b) (unat (cpu32 e k4 k5 k6 k7)),
                  add32 (unat c) (unat (cpu32 e k8 k9 k10 k11)))"
proof -
  let ?k = "k0 # k1 # k2 # k3 # k4 # k5 # k6 # k7 # k8 # k9 # k10 # k11 # k12 # rest"
  let ?s = "jhash_mix (a + cpu32 e k0 k1 k2 k3, b + cpu32 e k4 k5 k6 k7, c + cpu32 e k8 k9 k10 k11)"
  have "jhash_loop e ?k 13 (a, b, c) = jhash_loop e (drop 12 ?k) (13 - 12)
      (jhash_mix (a + cpu32 e (?k ! 0) (?k ! 1) (?k ! 2) (?k ! 3),
                  b + cpu32 e (?k ! 4) (?k ! 5) (?k ! 6) (?k ! 7),
                  c + cpu32 e (?k ! 8) (?k ! 9) (?k ! 10) (?k ! 11)))"
    by (rule jhash_loop_iter) simp_all
  then have "jhash_loop e ?k 13 (a, b, c) = jhash_loop e (k12 # rest) 1 ?s"
    by simp
  also have "\<dots> = Some (k12 # rest, 1, ?s)"
    by (rule jhash_loop_exit) simp
  finally have r: "jhash_loop e ?k 13 (a, b, c) = Some (k12 # rest, 1, ?s)" .
  have "regs_nat ?s =
         mix_nat (add32 (unat a) (unat (cpu32 e k0 k1 k2 k3)),
                  add32 (unat b) (unat (cpu32 e k4 k5 k6 k7)),
                  add32 (unat c) (unat (cpu32 e k8 k9 k10 k11)))"
    by (simp only: jhash_mix_nat) (simp add: regs_nat_def add32_unat)
  with r show ?thesis
    by blast
qed

lemma jhash_twelve_bytes_nat:
  "\<exists>h. jhash e (k0 # k1 # k2 # k3 # k4 # k5 # k6 # k7 # k8 # k9 # k10 # k11 # rest) 12 initval
          = Some h
     \<and> unat h = snd (snd (final_nat
         (tail_word_nat ((3735928559 + 12 + unat initval) mod 2 ^ 32)
            (unat k0) (unat k1) (unat k2) (unat k3),
          tail_word_nat ((3735928559 + 12 + unat initval) mod 2 ^ 32)
            (unat k4) (unat k5) (unat k6) (unat k7),
          tail_word_nat ((3735928559 + 12 + unat initval) mod 2 ^ 32)
            (unat k8) (unat k9) (unat k10) (unat k11))))"
proof -
  let ?k = "k0 # k1 # k2 # k3 # k4 # k5 # k6 # k7 # k8 # k9 # k10 # k11 # rest"
  let ?v = "0xdeadbeef + 12 + initval :: u32"
  let ?t = "(?v + ucast k0 + push_bit 8 (ucast k1) + push_bit 16 (ucast k2) + push_bit 24 (ucast k3),
             ?v + ucast k4 + push_bit 8 (ucast k5) + push_bit 16 (ucast k6) + push_bit 24 (ucast k7),
             ?v + ucast k8 + push_bit 8 (ucast k9) + push_bit 16 (ucast k10) + push_bit 24 (ucast k11))"
  have i: "jhash_init 12 initval = (?v, ?v, ?v)"
    by (simp add: jhash_init_def JHASH_INITVAL_def Let_def)
  have l: "jhash_loop e ?k 12 (jhash_init 12 initval) = Some (?k, 12, jhash_init 12 initval)"
    by (rule jhash_loop_exit) simp
  have "jhash_switch 12 ?k (?v, ?v, ?v) = Some (jhash_final (spec_absorb 12 ?k (?v, ?v, ?v)))"
    using jhash_switch_spec [of 12 ?k "(?v, ?v, ?v)"] by simp
  then have "jhash_switch 12 ?k (jhash_init 12 initval) = Some (jhash_final ?t)"
    by (simp only: spec_absorb_12 i)
  with l have h: "jhash e ?k 12 initval = Some (snd (snd (jhash_final ?t)))"
    by (rule jhash_value)
  have v: "unat ?v = (3735928559 + 12 + unat initval) mod 2 ^ 32"
    by (simp add: unat_word_ariths mod_simps)
  have "unat (snd (snd (jhash_final ?t))) = snd (snd (final_nat (regs_nat ?t)))"
    by (simp only: regs_nat_third [symmetric] jhash_final_nat)
  also have "regs_nat ?t =
         (tail_word_nat ((3735928559 + 12 + unat initval) mod 2 ^ 32)
            (unat k0) (unat k1) (unat k2) (unat k3),
          tail_word_nat ((3735928559 + 12 + unat initval) mod 2 ^ 32)
            (unat k4) (unat k5) (unat k6) (unat k7),
          tail_word_nat ((3735928559 + 12 + unat initval) mod 2 ^ 32)
            (unat k8) (unat k9) (unat k10) (unat k11))"
    unfolding regs_nat_def prod.case tail_word_unat v ..
  finally show ?thesis
    using h by blast
qed

section \<open>Properties of the hash\<close>

text \<open>
  C9. The block mix \<open>__jhash_mix\<close> is reversible: on triples of 32-bit values it is a
  bijection, so every triple is the image of exactly one triple.
\<close>

theorem jhash_mix_bijective: "bij jhash_mix \<and> (\<forall>t. \<exists>!s. jhash_mix s = t)"
proof -
  have eq: "jhash_mix =
      mix_round 4 \<circ> mix_round 19 \<circ> mix_round 16 \<circ> mix_round 8 \<circ> mix_round 6 \<circ> mix_round 4"
    by (rule ext) (simp add: jhash_mix_rounds spec_mix_def)
  have b: "bij jhash_mix"
    unfolding eq by (intro bij_comp bij_mix_round)
  from b have u: "\<forall>t. \<exists>!s. jhash_mix s = t"
    by (rule bij_iff [THEN iffD1])
  from b u show ?thesis
    by (rule conjI)
qed

text \<open>
  C6. The empty key (length 0) runs no iteration of the loop and no final mix, whatever
  the buffer and the byte order are: the loop returns its arguments, the switch returns
  the registers, and the hash is \<open>0xdeadbeef + initval\<close> modulo \<open>2 ^ 32\<close>, which is
  \<open>0xdeadbeef\<close> for the seed 0.
\<close>

theorem jhash_empty_key:
  "jhash_loop e key 0 s = Some (key, 0, s)
   \<and> jhash_switch 0 key s = Some s
   \<and> jhash e key 0 initval = Some (0xdeadbeef + initval)
   \<and> unat (0xdeadbeef + initval) = (3735928559 + unat initval) mod 2 ^ 32
   \<and> jhash e key 0 0 = Some 0xdeadbeef"
proof -
  have l: "jhash_loop e key 0 s = Some (key, 0, s)" for s
    by (rule jhash_loop_exit) simp
  have w: "jhash_switch 0 key s = Some s" for s
    by (simp add: jhash_switch_def)
  have h: "jhash e key 0 initval = Some (0xdeadbeef + initval)" for initval
    by (simp add: jhash_def l w jhash_init_def JHASH_INITVAL_def Let_def)
  have u: "unat (0xdeadbeef + initval) = (3735928559 + unat initval) mod 2 ^ 32"
    by (simp add: unat_word_ariths)
  have z: "jhash e key 0 0 = Some 0xdeadbeef"
    by (simp add: h)
  from l w h u z show ?thesis
    by blast
qed

text \<open>
  C5. The three registers start equal, at \<open>0xdeadbeef + length + initval\<close> modulo
  \<open>2 ^ 32\<close> (length \<open>0xffffffff\<close> and seed 1 wrap to \<open>0xdeadbeef\<close>), and \<open>jhash\<close> runs the
  loop and the switch from this state. All the arithmetic of the function is modulo
  \<open>2 ^ 32\<close>: read as natural numbers, the registers after \<open>__jhash_mix\<close> and after
  \<open>__jhash_final\<close> are those of the rounds with every addition and subtraction reduced
  modulo \<open>2 ^ 32\<close>, the loop adds the three words modulo \<open>2 ^ 32\<close>, the switch adds the
  bytes modulo \<open>2 ^ 32\<close>, and the hash of a 12-byte key and of the empty key are the
  numbers this arithmetic gives.
\<close>

theorem jhash_initial_state:
  "jhash_init len initval =
     (0xdeadbeef + len + initval, 0xdeadbeef + len + initval, 0xdeadbeef + len + initval)
   \<and> regs_nat (jhash_init len initval) =
       ((3735928559 + unat len + unat initval) mod 2 ^ 32,
        (3735928559 + unat len + unat initval) mod 2 ^ 32,
        (3735928559 + unat len + unat initval) mod 2 ^ 32)
   \<and> jhash_init 0xffffffff 1 = (0xdeadbeef, 0xdeadbeef, 0xdeadbeef)
   \<and> jhash e key len initval =
       jhash_loop e key len
         (0xdeadbeef + len + initval, 0xdeadbeef + len + initval, 0xdeadbeef + len + initval)
       \<bind> (\<lambda>(k, L, s). jhash_switch L k s \<bind> (\<lambda>(a, b, c). Some c))
   \<and> regs_nat (jhash_mix s) = mix_nat (regs_nat s)
   \<and> regs_nat (jhash_final s) = final_nat (regs_nat s)
   \<and> (\<exists>s'. jhash_loop e (k0 # k1 # k2 # k3 # k4 # k5 # k6 # k7 # k8 # k9 # k10 # k11 # k12 # rest)
              13 (a, b, c) = Some (k12 # rest, 1, s')
         \<and> regs_nat s' =
             mix_nat (add32 (unat a) (unat (cpu32 e k0 k1 k2 k3)),
                      add32 (unat b) (unat (cpu32 e k4 k5 k6 k7)),
                      add32 (unat c) (unat (cpu32 e k8 k9 k10 k11))))
   \<and> (\<exists>h. jhash e (k0 # k1 # k2 # k3 # k4 # k5 # k6 # k7 # k8 # k9 # k10 # k11 # rest) 12 initval
              = Some h
         \<and> unat h = snd (snd (final_nat
             (tail_word_nat ((3735928559 + 12 + unat initval) mod 2 ^ 32)
                (unat k0) (unat k1) (unat k2) (unat k3),
              tail_word_nat ((3735928559 + 12 + unat initval) mod 2 ^ 32)
                (unat k4) (unat k5) (unat k6) (unat k7),
              tail_word_nat ((3735928559 + 12 + unat initval) mod 2 ^ 32)
                (unat k8) (unat k9) (unat k10) (unat k11)))))
   \<and> (\<exists>h. jhash e key 0 initval = Some h \<and> unat h = (3735928559 + unat initval) mod 2 ^ 32)
   \<and> add32 x y = (x + y) mod 2 ^ 32
   \<and> sub32 x y = (x + 2 ^ 32 - y) mod 2 ^ 32
   \<and> mix_round_nat r (x, y, z) = (y, add32 z y, sub32 x z XOR rol32_nat z r)
   \<and> final_step_nat r (x, y, z) = (z, sub32 (x XOR y) (rol32_nat y r), y)
   \<and> tail_word_nat x b0 b1 b2 b3 = (x + b0 + 2 ^ 8 * b1 + 2 ^ 16 * b2 + 2 ^ 24 * b3) mod 2 ^ 32"
proof -
  have j: "jhash_init len initval =
     (0xdeadbeef + len + initval, 0xdeadbeef + len + initval, 0xdeadbeef + len + initval)"
    for len initval
    by (simp add: jhash_init_def JHASH_INITVAL_def Let_def)
  have w: "jhash_init 0xffffffff 1 = (0xdeadbeef, 0xdeadbeef, 0xdeadbeef)"
    by (simp add: j)
  have "jhash_loop e key 0 (jhash_init 0 initval) = Some (key, 0, jhash_init 0 initval)"
    by (rule jhash_loop_exit) simp
  moreover have "jhash_switch 0 key (jhash_init 0 initval) = Some (jhash_init 0 initval)"
    by (simp add: jhash_switch_def)
  ultimately have "jhash e key 0 initval = Some (snd (snd (jhash_init 0 initval)))"
    by (rule jhash_value)
  moreover have "unat (snd (snd (jhash_init 0 initval))) = (3735928559 + unat initval) mod 2 ^ 32"
    using jhash_init_nat [of 0 initval] by (simp add: regs_nat_third [symmetric])
  ultimately have z: "\<exists>h. jhash e key 0 initval = Some h
      \<and> unat h = (3735928559 + unat initval) mod 2 ^ 32"
    by blast
  have d: "add32 x y = (x + y) mod 2 ^ 32" "sub32 x y = (x + 2 ^ 32 - y) mod 2 ^ 32"
    "mix_round_nat r (x, y, z) = (y, add32 z y, sub32 x z XOR rol32_nat z r)"
    "final_step_nat r (x, y, z) = (z, sub32 (x XOR y) (rol32_nat y r), y)"
    "tail_word_nat x b0 b1 b2 b3 = (x + b0 + 2 ^ 8 * b1 + 2 ^ 16 * b2 + 2 ^ 24 * b3) mod 2 ^ 32"
    by (simp_all add: add32_def sub32_def mix_round_nat_def final_step_nat_def tail_word_nat_def)
  from j [of len initval] jhash_init_nat [of len initval] w jhash_unfold [of e key len initval]
    jhash_mix_nat [of s] jhash_final_nat [of s]
    jhash_loop_one_block [of e k0 k1 k2 k3 k4 k5 k6 k7 k8 k9 k10 k11 k12 rest a b c]
    jhash_twelve_bytes_nat [of e k0 k1 k2 k3 k4 k5 k6 k7 k8 k9 k10 k11 rest initval] z d
  show ?thesis
    by (intro conjI)
qed

text \<open>
  C1. For a remainder of \<open>len \<le> 12\<close> bytes the \<open>switch\<close> adds exactly the bytes
  \<open>0..len-1\<close> into the registers, byte \<open>i\<close> into register \<open>i div 4\<close> shifted left by
  \<open>8 * (i mod 4)\<close> bits (byte 0 into \<open>a\<close>, byte 1 into \<open>a << 8\<close>, ..., byte 11 into
  \<open>c << 24\<close>), and then, unless \<open>len = 0\<close>, applies the final mix. Entering at
  \<open>case len\<close> runs every lower case, and no byte at a position \<open>\<ge> len\<close> is read: the
  result is the same on the buffer cut after \<open>len\<close> bytes. The final mix is injective,
  so the registers it is applied to are determined by its result.
\<close>

theorem tail_absorption:
  assumes "len \<le> 12" and "unat len \<le> length k"
  shows "jhash_switch len k s =
           Some (if len = 0 then s else jhash_final (spec_absorb (unat len) k s))
         \<and> spec_absorb (unat len) k s = fold (\<lambda>i. absorb_byte i (k ! i)) [0..<unat len] s
         \<and> jhash_switch len (take (unat len) k) s = jhash_switch len k s
         \<and> absorb_byte 0 x (a, b, c) = (a + ucast x, b, c)
         \<and> absorb_byte 1 x (a, b, c) = (a + push_bit 8 (ucast x), b, c)
         \<and> absorb_byte 2 x (a, b, c) = (a + push_bit 16 (ucast x), b, c)
         \<and> absorb_byte 3 x (a, b, c) = (a + push_bit 24 (ucast x), b, c)
         \<and> absorb_byte 4 x (a, b, c) = (a, b + ucast x, c)
         \<and> absorb_byte 5 x (a, b, c) = (a, b + push_bit 8 (ucast x), c)
         \<and> absorb_byte 6 x (a, b, c) = (a, b + push_bit 16 (ucast x), c)
         \<and> absorb_byte 7 x (a, b, c) = (a, b + push_bit 24 (ucast x), c)
         \<and> absorb_byte 8 x (a, b, c) = (a, b, c + ucast x)
         \<and> absorb_byte 9 x (a, b, c) = (a, b, c + push_bit 8 (ucast x))
         \<and> absorb_byte 10 x (a, b, c) = (a, b, c + push_bit 16 (ucast x))
         \<and> absorb_byte 11 x (a, b, c) = (a, b, c + push_bit 24 (ucast x))
         \<and> inj jhash_final"
proof -
  have "jhash_switch len (take (unat len) k) s = jhash_switch len k s"
    by (simp add: jhash_switch_def fall_through_take)
  with jhash_switch_spec [OF assms, of s] absorb_byte_table [of x a b c] inj_jhash_final
  show ?thesis
    by (simp only: spec_absorb_def)
qed

text \<open>
  A remainder of two bytes in a buffer of three: the bytes \<open>0x34\<close> and \<open>0x12\<close> make
  \<open>a = 0x1234\<close>, and the third byte is not added.
\<close>

theorem tail_absorption_witness:
  "(2 :: u32) \<le> 12 \<and> unat (2 :: u32) \<le> length [0x34, 0x12, 0xff :: u8]
   \<and> jhash_switch 2 [0x34, 0x12, 0xff] (0, 0, 0) = Some (jhash_final (0x1234, 0, 0))
   \<and> jhash_switch 2 [0x34, 0x12] (0, 0, 0) = Some (jhash_final (0x1234, 0, 0))"
  using tail_absorption [of 2 "[0x34, 0x12, 0xff]" "(0, 0, 0)" 0 0 0 0]
  by (simp add: spec_absorb_def absorb_byte_def upt_rec)

text \<open>
  C3 (amended). The final mix is applied exactly when the remainder \<open>L\<close> left by the
  loop satisfies \<open>1 \<le> L \<le> 12\<close>. The remainder is never above 12; it is 0 exactly when
  the key length is 0, it is 12 for every other length that is a multiple of 12, and the
  length modulo 12 otherwise. For the length 0 the loop runs no iteration, the final mix
  is skipped and the \<open>c\<close> of the initialisation is returned unchanged. For every other
  length the hash is the \<open>c\<close> of the final mix of the registers after absorbing the
  remainder.
\<close>

theorem final_mix_condition:
  assumes "unat len \<le> length key"
  shows "\<exists>k' L s'. jhash_loop e key len (jhash_init len initval) = Some (k', L, s')
           \<and> L \<le> 12 \<and> (L = 0 \<longleftrightarrow> len = 0)
           \<and> L = (if len = 0 then 0 else if 12 dvd unat len then 12
                    else of_nat (unat len mod 12))
           \<and> unat L = unat len - 12 * spec_iterations (unat len)
           \<and> k' = drop (12 * spec_iterations (unat len)) key
           \<and> jhash_switch L k' s' =
                 Some (if L = 0 then s' else jhash_final (spec_absorb (unat L) k' s'))
           \<and> jhash e key len initval =
                 Some (snd (snd (if L = 0 then s' else jhash_final (spec_absorb (unat L) k' s'))))
           \<and> jhash_loop e key 0 (jhash_init 0 initval) = Some (key, 0, jhash_init 0 initval)
           \<and> jhash e key 0 initval = Some (snd (snd (jhash_init 0 initval)))"
proof -
  from jhash_loop_remainder [OF assms, of e "jhash_init len initval"] obtain k' L s' where
    r: "jhash_loop e key len (jhash_init len initval) = Some (k', L, s')"
    and L: "L \<le> 12" "L = 0 \<longleftrightarrow> len = 0"
      "L = (if len = 0 then 0 else if 12 dvd unat len then 12 else of_nat (unat len mod 12))"
      "unat L = unat len - 12 * spec_iterations (unat len)"
    and k: "k' = drop (12 * spec_iterations (unat len)) key"
    and w: "jhash_switch L k' s' =
      Some (if L = 0 then s' else jhash_final (spec_absorb (unat L) k' s'))"
    by blast
  from r w have h: "jhash e key len initval =
      Some (snd (snd (if L = 0 then s' else jhash_final (spec_absorb (unat L) k' s'))))"
    by (rule jhash_value)
  have l0: "jhash_loop e key 0 (jhash_init 0 initval) = Some (key, 0, jhash_init 0 initval)"
    by (rule jhash_loop_exit) simp
  have "jhash_switch 0 key (jhash_init 0 initval) = Some (jhash_init 0 initval)"
    by (simp add: jhash_switch_def)
  with l0 have h0: "jhash e key 0 initval = Some (snd (snd (jhash_init 0 initval)))"
    by (rule jhash_value)
  from r L k w h l0 h0 show ?thesis
    by blast
qed

text \<open>
  A key of 24 zero bytes: the loop runs once and leaves the remainder 12, and the switch
  applies the final mix.
\<close>

theorem final_mix_condition_witness:
  "unat (24 :: u32) \<le> length (replicate 24 (0 :: u8))
   \<and> (\<exists>k' s'. jhash_loop Little_endian (replicate 24 0) 24 (jhash_init 24 0) = Some (k', 12, s')
         \<and> k' = replicate 12 0
         \<and> jhash_switch 12 k' s' = Some (jhash_final (spec_absorb 12 k' s'))
         \<and> jhash Little_endian (replicate 24 0) 24 0 =
               Some (snd (snd (jhash_final (spec_absorb 12 k' s')))))"
proof -
  have h: "unat (24 :: u32) \<le> length (replicate 24 (0 :: u8))"
    by simp
  from final_mix_condition [OF h, of Little_endian 0] obtain k' L s' where
    r: "jhash_loop Little_endian (replicate 24 0) 24 (jhash_init 24 0) = Some (k', L, s')"
    and L: "L = (if (24 :: u32) = 0 then 0 else if 12 dvd unat (24 :: u32) then 12
                 else of_nat (unat (24 :: u32) mod 12))"
    and k: "k' = drop (12 * spec_iterations (unat (24 :: u32))) (replicate 24 0)"
    and w: "jhash_switch L k' s' =
      Some (if L = 0 then s' else jhash_final (spec_absorb (unat L) k' s'))"
    and j: "jhash Little_endian (replicate 24 0) 24 0 =
      Some (snd (snd (if L = 0 then s' else jhash_final (spec_absorb (unat L) k' s'))))"
    by blast
  from L have L12: "L = 12"
    by simp
  from k have k12: "k' = replicate 12 0"
    by (simp add: spec_iterations_def)
  from r w j have "jhash_loop Little_endian (replicate 24 0) 24 (jhash_init 24 0) = Some (k', 12, s')
      \<and> jhash_switch 12 k' s' = Some (jhash_final (spec_absorb 12 k' s'))
      \<and> jhash Little_endian (replicate 24 0) 24 0 =
            Some (snd (snd (jhash_final (spec_absorb 12 k' s'))))"
    unfolding L12 by simp
  with h k12 show ?thesis
    by blast
qed

text \<open>
  A key of twelve zero bytes: its length is a multiple of 12, yet the loop leaves the
  remainder 12, not 0, and the switch applies the final mix to the registers.
\<close>

theorem remainder_zero_counterexample:
  "12 dvd unat (12 :: u32)
   \<and> jhash_loop Little_endian [0, 0, 0, 0, 0, 0, 0, 0, 0, 0, 0, 0] 12 (jhash_init 12 0)
       = Some ([0, 0, 0, 0, 0, 0, 0, 0, 0, 0, 0, 0], 12, jhash_init 12 0)
   \<and> (12 :: u32) \<noteq> 0
   \<and> jhash_switch 12 [0, 0, 0, 0, 0, 0, 0, 0, 0, 0, 0, 0] (jhash_init 12 0)
       = Some (jhash_final (jhash_init 12 0))
   \<and> jhash Little_endian [0, 0, 0, 0, 0, 0, 0, 0, 0, 0, 0, 0] 12 0
       = Some (snd (snd (jhash_final (jhash_init 12 0))))"
proof -
  let ?k = "[0, 0, 0, 0, 0, 0, 0, 0, 0, 0, 0, 0] :: u8 list"
  have l: "jhash_loop Little_endian ?k 12 (jhash_init 12 0) = Some (?k, 12, jhash_init 12 0)"
    by (rule jhash_loop_exit) simp
  have "spec_absorb 12 ?k s = s" for s
    by (cases s) (simp add: spec_absorb_def absorb_byte_def upt_rec)
  with jhash_switch_spec [of 12 ?k "jhash_init 12 0"]
  have w: "jhash_switch 12 ?k (jhash_init 12 0) = Some (jhash_final (jhash_init 12 0))"
    by simp
  from l w have "jhash Little_endian ?k 12 0 = Some (snd (snd (jhash_final (jhash_init 12 0))))"
    by (rule jhash_value)
  with l w show ?thesis
    by simp
qed

text \<open>
  C2. While more than 12 bytes remain, the loop reads three 32-bit words from the next 12
  bytes (on a little-endian CPU the word of the bytes \<open>b0 b1 b2 b3\<close> is
  \<open>b0 | b1<<8 | b2<<16 | b3<<24\<close>), adds them to \<open>a\<close>, \<open>b\<close>, \<open>c\<close>, applies the block
  mix, which is six rounds of subtract, rotate-XOR, add with the rotations 4, 6, 8, 16, 19,
  4 on cyclically moving registers, and moves 12 bytes on. Started with more than 12
  bytes it runs at least once (exactly once up to 24 bytes) and returns the pointer after
  the blocks it has read, the length that is left and the registers after these blocks.
\<close>

theorem bulk_loop_step:
  assumes "12 < len" and "unat len \<le> length k"
  shows "jhash_loop Little_endian k len (a, b, c) =
           Some (drop (12 * spec_iterations (unat len)) k,
                 len - of_nat (12 * spec_iterations (unat len)),
                 spec_blocks le32 (spec_iterations (unat len)) k (a, b, c))
         \<and> spec_iterations (unat len) = Suc (spec_iterations (unat len - 12))
         \<and> (spec_iterations (unat len) = 1 \<longleftrightarrow> len \<le> 24)
         \<and> spec_blocks w (Suc n) k (a, b, c) =
             spec_blocks w n (drop 12 k)
               (spec_mix (a + w (k ! 0) (k ! 1) (k ! 2) (k ! 3),
                          b + w (k ! 4) (k ! 5) (k ! 6) (k ! 7),
                          c + w (k ! 8) (k ! 9) (k ! 10) (k ! 11)))
         \<and> spec_blocks w 0 k (a, b, c) = (a, b, c)
         \<and> jhash_loop Little_endian k len (a, b, c) =
             jhash_loop Little_endian (drop 12 k) (len - 12)
               (spec_mix (a + le32 (k ! 0) (k ! 1) (k ! 2) (k ! 3),
                          b + le32 (k ! 4) (k ! 5) (k ! 6) (k ! 7),
                          c + le32 (k ! 8) (k ! 9) (k ! 10) (k ! 11)))
         \<and> jhash_loop e k len (a, b, c) =
             Some (drop (12 * spec_iterations (unat len)) k,
                   len - of_nat (12 * spec_iterations (unat len)),
                   spec_blocks (cpu32 e) (spec_iterations (unat len)) k (a, b, c))
         \<and> unat (len - 12) = unat len - 12
         \<and> jhash_mix s = spec_mix s
         \<and> spec_mix s = fold mix_round [4, 6, 8, 16, 19, 4] s
         \<and> mix_round r (x, y, z) = (y, z + y, (x - z) XOR rol32 z r)
         \<and> rol32 z 4 = word_rotl 4 z \<and> rol32 z 6 = word_rotl 6 z
         \<and> rol32 z 8 = word_rotl 8 z \<and> rol32 z 16 = word_rotl 16 z
         \<and> rol32 z 19 = word_rotl 19 z"
proof -
  note res = jhash_loop_blocks [OF assms(2)]
  from assms(1) have big: "12 < unat len"
    by (simp only: unat_gt_12)
  have r1: "jhash_loop Little_endian k len (a, b, c) =
           Some (drop (12 * spec_iterations (unat len)) k,
                 len - of_nat (12 * spec_iterations (unat len)),
                 spec_blocks le32 (spec_iterations (unat len)) k (a, b, c))"
    using res [of Little_endian "(a, b, c)"] by (simp only: cpu32_little_fun)
  from big have i1: "spec_iterations (unat len) = Suc (spec_iterations (unat len - 12))"
    by (rule spec_iterations_step)
  have "len \<le> 24 \<longleftrightarrow> unat len \<le> 24"
    by (simp add: word_le_nat_alt)
  with spec_iterations_one [OF big] have i2: "spec_iterations (unat len) = 1 \<longleftrightarrow> len \<le> 24"
    by (simp only:)
  have b1: "spec_blocks w (Suc n) k (a, b, c) =
             spec_blocks w n (drop 12 k)
               (spec_mix (a + w (k ! 0) (k ! 1) (k ! 2) (k ! 3),
                          b + w (k ! 4) (k ! 5) (k ! 6) (k ! 7),
                          c + w (k ! 8) (k ! 9) (k ! 10) (k ! 11)))"
    and b0: "spec_blocks w 0 k (a, b, c) = (a, b, c)"
    by simp_all
  note step = jhash_loop_iter [OF assms]
  from step [of Little_endian a b c]
  have s1: "jhash_loop Little_endian k len (a, b, c) =
           jhash_loop Little_endian (drop 12 k) (len - 12)
             (spec_mix (a + le32 (k ! 0) (k ! 1) (k ! 2) (k ! 3),
                        b + le32 (k ! 4) (k ! 5) (k ! 6) (k ! 7),
                        c + le32 (k ! 8) (k ! 9) (k ! 10) (k ! 11)))"
    by (simp only: cpu32_little jhash_mix_rounds)
  have m: "mix_round r (x, y, z) = (y, z + y, (x - z) XOR rol32 z r)"
    by (simp add: mix_round_def)
  have f: "spec_mix s = fold mix_round [4, 6, 8, 16, 19, 4] s"
    by (simp only: spec_mix_def)
  from r1 i1 i2 b1 b0 s1 res [of e "(a, b, c)"] unat_sub_12 [OF assms(1)]
    jhash_mix_rounds [of s] f m rol32_rotates(1-5) [of z]
  show ?thesis
    by (intro conjI)
qed

text \<open>
  A key of 13 bytes: the bytes 1 to 12 make the words \<open>0x04030201\<close>, \<open>0x08070605\<close> and
  \<open>0x0c0b0a09\<close>; the loop runs once and returns the last byte, the length 1 and the mixed
  registers.
\<close>

theorem bulk_loop_step_witness:
  "(12 :: u32) < 13
   \<and> unat (13 :: u32) \<le> length [1, 2, 3, 4, 5, 6, 7, 8, 9, 10, 11, 12, 13 :: u8]
   \<and> jhash_loop Little_endian [1, 2, 3, 4, 5, 6, 7, 8, 9, 10, 11, 12, 13] 13 (0, 0, 0)
       = Some ([13], 1, spec_mix (0x04030201, 0x08070605, 0x0c0b0a09))"
proof -
  have h1: "(12 :: u32) < 13"
    and h2: "unat (13 :: u32) \<le> length [1, 2, 3, 4, 5, 6, 7, 8, 9, 10, 11, 12, 13 :: u8]"
    by simp_all
  have n: "spec_iterations (unat (13 :: u32)) = Suc 0"
    by (simp add: spec_iterations_def)
  from bulk_loop_step [OF h1 h2, of 0 0 0, THEN conjunct1]
  have "jhash_loop Little_endian [1, 2, 3, 4, 5, 6, 7, 8, 9, 10, 11, 12, 13] 13 (0, 0, 0)
       = Some ([13], 1, spec_mix (0x04030201, 0x08070605, 0x0c0b0a09))"
    unfolding n by (simp add: le32_def)
  with h1 h2 show ?thesis
    by (intro conjI)
qed

text \<open>
  C10. The hash depends only on the first \<open>length\<close> bytes of the buffer: two buffers
  that agree at every index below \<open>length\<close> have the same hash, and no byte at an index
  \<open>\<ge> length\<close> is read, since the hash is the same, and defined, on the buffer cut after
  \<open>length\<close> bytes, where any such read would fail.
\<close>

theorem jhash_prefix_only:
  assumes "unat len \<le> length k1" and "unat len \<le> length k2"
    and "\<forall>i < unat len. k1 ! i = k2 ! i"
  shows "jhash e k1 len initval = jhash e k2 len initval
         \<and> jhash e (take (unat len) k1) len initval = jhash e k1 len initval
         \<and> (\<exists>h. jhash e (take (unat len) k1) len initval = Some h)"
proof -
  from assms have "take (unat len) k1 = take (unat len) k2"
    by (intro nth_take_lemma) simp_all
  then have "jhash e (take (unat len) k1) len initval = jhash e (take (unat len) k2) len initval"
    by simp
  with jhash_take [OF assms(1), of e initval] jhash_take [OF assms(2), of e initval]
    jhash_total [OF assms(1), of e initval]
  show ?thesis
    by simp
qed

text \<open>
  Two buffers that agree on their first two bytes and differ after them, hashed with
  the length 2.
\<close>

theorem jhash_prefix_only_witness:
  "unat (2 :: u32) \<le> length [1, 2, 3 :: u8] \<and> unat (2 :: u32) \<le> length [1, 2, 9, 9 :: u8]
   \<and> jhash Little_endian [1, 2, 3] 2 5 = jhash Little_endian [1, 2, 9, 9] 2 5
   \<and> jhash Little_endian [1, 2] 2 5 = jhash Little_endian [1, 2, 3] 2 5
   \<and> (\<exists>h. jhash Little_endian [1, 2] 2 5 = Some h)"
proof -
  have h1: "unat (2 :: u32) \<le> length [1, 2, 3 :: u8]"
    and h2: "unat (2 :: u32) \<le> length [1, 2, 9, 9 :: u8]"
    by simp_all
  have h3: "\<forall>i < unat (2 :: u32). [1, 2, 3 :: u8] ! i = [1, 2, 9, 9] ! i"
  proof (intro allI impI)
    fix i :: nat
    assume "i < unat (2 :: u32)"
    then have "i < 2"
      by simp
    then have "i = 0 \<or> i = 1"
      by arith
    then show "[1, 2, 3 :: u8] ! i = [1, 2, 9, 9] ! i"
      by auto
  qed
  have t: "take (unat (2 :: u32)) [1, 2, 3 :: u8] = [1, 2]"
    by simp
  from h1 h2 jhash_prefix_only [OF h1 h2 h3, of Little_endian 5, unfolded t] show ?thesis
    by blast
qed

text \<open>
  C8. \<open>jhash\<close> is a function of the byte order, the key bytes, the length and the seed,
  so two evaluations on the same arguments agree. On every buffer that holds at least
  \<open>length\<close> bytes it returns a value: no read fails and the loop ends. It writes nothing:
  the only thing that changes about the key is the pointer, which the loop moves forward.
\<close>

theorem jhash_total_pure:
  assumes "unat len \<le> length key"
  shows "(\<exists>h. jhash e key len initval = Some h)
         \<and> (\<exists>k' L s'. jhash_loop e key len (jhash_init len initval) = Some (k', L, s')
               \<and> k' = drop (unat len - unat L) key)"
proof -
  from jhash_loop_switch [OF assms, of e "jhash_init len initval"]
  have "\<exists>k' L s'. jhash_loop e key len (jhash_init len initval) = Some (k', L, s')
               \<and> k' = drop (unat len - unat L) key"
    by blast
  with jhash_total [OF assms, of e initval] show ?thesis
    by (rule conjI)
qed

text \<open>
  The three bytes of \<open>foo\<close>, hashed with the seed 0.
\<close>

theorem jhash_total_pure_witness:
  "unat (3 :: u32) \<le> length [102, 111, 111 :: u8]
   \<and> (\<exists>h. jhash Little_endian [102, 111, 111] 3 0 = Some h)
   \<and> (\<exists>k' L s'. jhash_loop Little_endian [102, 111, 111] 3 (jhash_init 3 0) = Some (k', L, s')
               \<and> k' = drop (unat (3 :: u32) - unat L) [102, 111, 111])"
proof -
  have h: "unat (3 :: u32) \<le> length [102, 111, 111 :: u8]"
    by simp
  from h jhash_total_pure [OF h, of Little_endian 0] show ?thesis
    by (rule conjI)
qed



text \<open>
  C7. A key of exactly 12 bytes runs no iteration of the loop, whose condition is
  \<open>12 < length\<close>: the loop hands the buffer, the length 12 and the registers on unchanged.
  All 12 bytes go through the switch, entered at \<open>case 12\<close>, and the final mix.
\<close>

theorem twelve_byte_key:
  "jhash_loop e (k0 # k1 # k2 # k3 # k4 # k5 # k6 # k7 # k8 # k9 # k10 # k11 # rest) 12 s =
     Some (k0 # k1 # k2 # k3 # k4 # k5 # k6 # k7 # k8 # k9 # k10 # k11 # rest, 12, s)
   \<and> jhash_switch 12 (k0 # k1 # k2 # k3 # k4 # k5 # k6 # k7 # k8 # k9 # k10 # k11 # rest) (a, b, c) =
     Some (jhash_final
       (a + ucast k0 + push_bit 8 (ucast k1) + push_bit 16 (ucast k2) + push_bit 24 (ucast k3),
        b + ucast k4 + push_bit 8 (ucast k5) + push_bit 16 (ucast k6) + push_bit 24 (ucast k7),
        c + ucast k8 + push_bit 8 (ucast k9) + push_bit 16 (ucast k10) + push_bit 24 (ucast k11)))
   \<and> jhash e (k0 # k1 # k2 # k3 # k4 # k5 # k6 # k7 # k8 # k9 # k10 # k11 # rest) 12 initval =
     Some (snd (snd (jhash_final
       (0xdeadbeef + 12 + initval
          + ucast k0 + push_bit 8 (ucast k1) + push_bit 16 (ucast k2) + push_bit 24 (ucast k3),
        0xdeadbeef + 12 + initval
          + ucast k4 + push_bit 8 (ucast k5) + push_bit 16 (ucast k6) + push_bit 24 (ucast k7),
        0xdeadbeef + 12 + initval
          + ucast k8 + push_bit 8 (ucast k9) + push_bit 16 (ucast k10) + push_bit 24 (ucast k11)))))"
proof -
  let ?k = "k0 # k1 # k2 # k3 # k4 # k5 # k6 # k7 # k8 # k9 # k10 # k11 # rest"
  have l: "jhash_loop e ?k 12 s = Some (?k, 12, s)" for s
    by (rule jhash_loop_exit) simp
  have "jhash_switch 12 ?k (a, b, c) = Some (jhash_final (spec_absorb 12 ?k (a, b, c)))" for a b c
    using jhash_switch_spec [of 12 ?k "(a, b, c)"] by simp
  then have w: "jhash_switch 12 ?k (a, b, c) =
     Some (jhash_final
       (a + ucast k0 + push_bit 8 (ucast k1) + push_bit 16 (ucast k2) + push_bit 24 (ucast k3),
        b + ucast k4 + push_bit 8 (ucast k5) + push_bit 16 (ucast k6) + push_bit 24 (ucast k7),
        c + ucast k8 + push_bit 8 (ucast k9) + push_bit 16 (ucast k10) + push_bit 24 (ucast k11)))"
    for a b c
    by (simp only: spec_absorb_12)
  let ?v = "0xdeadbeef + 12 + initval :: u32"
  have i: "jhash_init 12 initval = (?v, ?v, ?v)"
    by (simp add: jhash_init_def JHASH_INITVAL_def Let_def)
  from l [of "(?v, ?v, ?v)"] w [of ?v ?v ?v] have "jhash e ?k 12 initval =
     Some (snd (snd (jhash_final
       (?v + ucast k0 + push_bit 8 (ucast k1) + push_bit 16 (ucast k2) + push_bit 24 (ucast k3),
        ?v + ucast k4 + push_bit 8 (ucast k5) + push_bit 16 (ucast k6) + push_bit 24 (ucast k7),
        ?v + ucast k8 + push_bit 8 (ucast k9) + push_bit 16 (ucast k10) + push_bit 24 (ucast k11)))))"
    unfolding i [symmetric] by (rule jhash_value)
  with l [of s] w [of a b c] show ?thesis
    by (intro conjI)
qed

end
